theory Spec2Isabelle
  imports Main
begin

section \<open>Python values handled by the calendar generator\<close>

text \<open>
  The generator \<^verbatim>\<open>generate_hull_calendar.py\<close> turns a list of event dictionaries into
  an iCalendar document. The values stored in an event dictionary are Python objects;
  the model keeps the classes the code distinguishes: \<^verbatim>\<open>None\<close>, \<^verbatim>\<open>int\<close> (standing
  for any object without string or date methods), \<^verbatim>\<open>str\<close>, \<^verbatim>\<open>datetime.date\<close> and
  \<^verbatim>\<open>datetime.datetime\<close>.

  A Python \<^verbatim>\<open>str\<close> is modelled as a \<^typ>\<open>string\<close>. The characters the code looks
  at (backslash, newline, comma, semicolon) are ASCII, and no byte of a multi-byte UTF-8
  sequence is ASCII, so replacing them in the UTF-8 bytes is replacing them in the text;
  the non-ASCII characters of the source's literals (the dash in the sample data) are
  outside every definition below.
\<close>

abbreviation BSL :: char where "BSL \<equiv> CHR 0x5C"
abbreviation NL :: char where "NL \<equiv> CHR 0x0A"
abbreviation CR :: char where "CR \<equiv> CHR 0x0D"

record date =
  year :: int
  month :: int
  day :: int

text \<open>
  A \<^verbatim>\<open>datetime\<close> extends a \<^verbatim>\<open>date\<close>. Its \<^verbatim>\<open>tzinfo\<close> is \<open>None\<close> for a naive
  timestamp; for an aware one it is \<open>Some off\<close>, where \<open>off\<close> is what
  \<^verbatim>\<open>dt.tzinfo.utcoffset(dt)\<close> returns, in microseconds (a \<^verbatim>\<open>timedelta\<close> is a whole
  number of microseconds).
\<close>

record datetime = date +
  hour :: int
  minute :: int
  second :: int
  microsecond :: int
  tzinfo :: "int option"

datatype pyval =
    PNone
  | PInt int
  | PStr string
  | PDate date
  | PDateTime datetime

datatype error = AttributeError | TypeError | KeyError | OverflowError | OSError

text \<open>Python's truth value, as \<^verbatim>\<open>not x\<close> and \<^verbatim>\<open>x or y\<close> use it.\<close>

fun truthy :: "pyval \<Rightarrow> bool" where
  "truthy PNone = False"
| "truthy (PInt n) = (n \<noteq> 0)"
| "truthy (PStr s) = (s \<noteq> [])"
| "truthy (PDate d) = True"
| "truthy (PDateTime dt) = True"

section \<open>Text escaping\<close>

text \<open>
  \<^verbatim>\<open>str.replace(old, new)\<close>: every occurrence of \<open>old\<close>, found from left to right
  without overlap, is replaced by \<open>new\<close>; an empty \<open>old\<close> matches before every
  character and at the end.
\<close>

function str_replace :: "string \<Rightarrow> string \<Rightarrow> string \<Rightarrow> string" where
  "str_replace old new [] = (if old = [] then new else [])"
| "str_replace old new (c # cs) =
     (if old = [] then new @ c # str_replace old new cs
      else if take (length old) (c # cs) = old
           then new @ str_replace old new (drop (length old) (c # cs))
           else c # str_replace old new cs)"
  by pat_completeness auto
termination
  by (relation "measure (\<lambda>(old, new, s). length s)") auto

text \<open>
  \<^verbatim>\<open>
  def _escape(text: str) -> str:
      if not text:
          return ""
      return text.replace("\\", "\\\\").replace("\n", "\\n").replace(",", "\\,").replace(";", "\\;")
  \<close>
  A falsy argument of any class gives the empty string. An \<^verbatim>\<open>int\<close> has no
  \<^verbatim>\<open>replace\<close>; \<^verbatim>\<open>date.replace\<close> and \<^verbatim>\<open>datetime.replace\<close> take integers and
  reject the two strings.
\<close>

fun escape :: "pyval \<Rightarrow> error + string" where
  "escape (PStr s) =
     (if s = [] then Inr []
      else Inr (str_replace '';'' [BSL, CHR '';'']
                 (str_replace '','' [BSL, CHR '','']
                   (str_replace [NL] [BSL, CHR ''n'']
                     (str_replace [BSL] [BSL, BSL] s)))))"
| "escape PNone = Inr []"
| "escape (PInt n) = (if n = 0 then Inr [] else Inl AttributeError)"
| "escape (PDate d) = Inl TypeError"
| "escape (PDateTime dt) = Inl TypeError"

text \<open>What the four replacements do to one character of the input.\<close>

definition esc_char :: "char \<Rightarrow> string" where
  "esc_char c =
     (if c = BSL then [BSL, BSL]
      else if c = NL then [BSL, CHR ''n'']
      else if c = CHR '','' then [BSL, CHR '','']
      else if c = CHR '';'' then [BSL, CHR '';'']
      else [c])"

text \<open>
  The inverse rule the specification refers to is the text unescaping of the calendar
  format (RFC 5545, 3.3.11), read from left to right: a backslash followed by \<open>n\<close> or
  \<open>N\<close> is a newline, a backslash followed by a backslash, a comma or a semicolon is
  that character, and everything else stands for itself. The repository has no such
  function; this one is written from the rule.
\<close>

fun unescape :: "string \<Rightarrow> string" where
  "unescape (c # d # cs) =
     (if c = BSL then
        (if d = CHR ''n'' \<or> d = CHR ''N'' then NL # unescape cs
         else if d = BSL \<or> d = CHR '','' \<or> d = CHR '';'' then d # unescape cs
         else c # unescape (d # cs))
      else c # unescape (d # cs))"
| "unescape cs = cs"

section \<open>Dates and timestamps\<close>

subsection \<open>Formatting numbers\<close>

text \<open>The decimal digits of a natural number, and \<^verbatim>\<open>"%0wd" % n\<close>.\<close>

fun digits :: "nat \<Rightarrow> string" where
  "digits n = (if n < 10 then [''0123456789'' ! n]
               else digits (n div 10) @ [''0123456789'' ! (n mod 10)])"

declare digits.simps [simp del]

definition zfill :: "nat \<Rightarrow> string \<Rightarrow> string" where
  "zfill w s = replicate (w - length s) (CHR ''0'') @ s"

definition fmt_d :: "nat \<Rightarrow> int \<Rightarrow> string" where
  "fmt_d w n = (if n < 0 then CHR ''-'' # zfill (w - 1) (digits (nat (- n)))
                else zfill w (digits (nat n)))"

subsection \<open>The proleptic Gregorian calendar of the \<^verbatim>\<open>datetime\<close> module\<close>

text \<open>
  The helpers of the standard library, as it defines them: \<^verbatim>\<open>_is_leap\<close>,
  \<^verbatim>\<open>_days_before_year\<close>, \<^verbatim>\<open>_days_in_month\<close>, \<^verbatim>\<open>_days_before_month\<close> and
  \<^verbatim>\<open>_ymd2ord\<close>; day 1 is 1 January of year 1.
\<close>

definition is_leap :: "int \<Rightarrow> bool" where
  "is_leap y = (y mod 4 = 0 \<and> (y mod 100 \<noteq> 0 \<or> y mod 400 = 0))"

definition days_before_year :: "int \<Rightarrow> int" where
  "days_before_year y = (y - 1) * 365 + (y - 1) div 4 - (y - 1) div 100 + (y - 1) div 400"

definition days_in_month :: "int \<Rightarrow> int \<Rightarrow> int" where
  "days_in_month y m =
     (if m = 2 \<and> is_leap y then 29
      else [31, 28, 31, 30, 31, 30, 31, 31, 30, 31, 30, 31] ! nat (m - 1))"

definition days_before_month :: "int \<Rightarrow> int \<Rightarrow> int" where
  "days_before_month y m =
     [0, 31, 59, 90, 120, 151, 181, 212, 243, 273, 304, 334] ! nat (m - 1)
       + (if m > 2 \<and> is_leap y then 1 else 0)"

definition ymd2ord :: "int \<Rightarrow> int \<Rightarrow> int \<Rightarrow> int" where
  "ymd2ord y m d = days_before_year y + days_before_month y m + d"

definition toordinal :: "'a date_scheme \<Rightarrow> int" where
  "toordinal d = ymd2ord (year d) (month d) (day d)"

text \<open>
  A \<^verbatim>\<open>date\<close> or \<^verbatim>\<open>datetime\<close> object always holds a day of the calendar, years 1 to
  9999, and a time of the day; the constructors reject everything else. An offset
  returned by \<^verbatim>\<open>utcoffset\<close> is strictly between minus and plus one day.
\<close>

definition valid_date :: "'a date_scheme \<Rightarrow> bool" where
  "valid_date d =
     (1 \<le> year d \<and> year d \<le> 9999 \<and> 1 \<le> month d \<and> month d \<le> 12 \<and>
      1 \<le> day d \<and> day d \<le> days_in_month (year d) (month d))"


text \<open>
  \<^verbatim>\<open>date.fromordinal\<close>: the date with a given day number. The year is the last one
  that starts before the day, searched downwards from an upper estimate, and the month
  likewise; the properties section proves that the result is the one valid date with
  that day number, which is what the library's own arithmetic over 400-year cycles
  computes.
\<close>

function year_of_ord :: "int \<Rightarrow> int \<Rightarrow> int" where
  "year_of_ord n y =
     (if y \<le> 1 \<or> days_before_year y < n then y else year_of_ord n (y - 1))"
  by pat_completeness auto
termination
  by (relation "measure (\<lambda>(n, y). nat y)") auto

function month_of_ord :: "int \<Rightarrow> int \<Rightarrow> int \<Rightarrow> int" where
  "month_of_ord y r m =
     (if m \<le> 1 \<or> days_before_month y m < r then m else month_of_ord y r (m - 1))"
  by pat_completeness auto
termination
  by (relation "measure (\<lambda>(y, r, m). nat m)") auto

declare year_of_ord.simps [simp del] month_of_ord.simps [simp del]

definition fromordinal :: "int \<Rightarrow> date" where
  "fromordinal n =
     (let y = year_of_ord n ((n - 1) div 365 + 1);
          r = n - days_before_year y;
          m = month_of_ord y r 12
      in \<lparr>year = y, month = m, day = r - days_before_month y m\<rparr>)"

subsection \<open>Timestamp arithmetic and conversion to UTC\<close>

text \<open>
  The microseconds from the start of day 0 to a timestamp, read without its offset:
  the \<^verbatim>\<open>timedelta\<close> that \<^verbatim>\<open>datetime.__add__\<close> builds from the day number and the
  time of the day.
\<close>

definition to_us :: "datetime \<Rightarrow> int" where
  "to_us dt =
     ((toordinal dt * 86400 + hour dt * 3600 + minute dt * 60 + second dt) * 1000000
       + microsecond dt)"

text \<open>
  \<^verbatim>\<open>dt - timedelta(microseconds=off)\<close>: the sum is normalised to days, seconds and
  microseconds, and a day number outside 1 to 3652059 (31 December 9999) raises
  \<^verbatim>\<open>OverflowError\<close>. The \<^verbatim>\<open>tzinfo\<close> is kept.
\<close>

definition sub_timedelta :: "datetime \<Rightarrow> int \<Rightarrow> error + datetime" where
  "sub_timedelta dt off =
     (let total = to_us dt - off;
          days = total div 86400000000;
          secs = (total mod 86400000000) div 1000000;
          us = (total mod 86400000000) mod 1000000;
          d = fromordinal days
      in if 0 < days \<and> days \<le> 3652059
         then Inr \<lparr>year = year d, month = month d, day = day d,
                   hour = secs div 3600, minute = (secs mod 3600) div 60,
                   second = (secs mod 3600) mod 60, microsecond = us, tzinfo = tzinfo dt\<rparr>
         else Inl OverflowError)"

text \<open>
  What the generator reads from its surroundings: the clock (\<^verbatim>\<open>datetime.utcnow()\<close>),
  the system's local time zone, as the offset from UTC in seconds that the platform
  reports for a naive local time (or the error it raises for a time it cannot
  convert), and the random identifiers, \<open>uuid4 k\<close> being the text of the one drawn by
  the \<open>k\<close>-th call of \<^verbatim>\<open>uuid.uuid4()\<close>.
\<close>

record env =
  utcnow :: datetime
  local_utcoffset :: "datetime \<Rightarrow> error + int"
  uuid4 :: "nat \<Rightarrow> string"

text \<open>
  \<^verbatim>\<open>dt.astimezone(datetime.timezone.utc)\<close> (Python 3.6 and later). The offset of an
  aware timestamp is its own; a naive timestamp is taken to be in the system's local
  time zone. The result is the timestamp minus the offset, with UTC attached
  (\<^verbatim>\<open>timezone.utc.fromutc\<close> adds the zero offset).
\<close>

definition astimezone_utc :: "env \<Rightarrow> datetime \<Rightarrow> error + datetime" where
  "astimezone_utc e dt =
     (case tzinfo dt of
        None \<Rightarrow>
          (case local_utcoffset e dt of
             Inl err \<Rightarrow> Inl err
           | Inr secs \<Rightarrow>
               (case sub_timedelta dt (secs * 1000000) of
                  Inl err \<Rightarrow> Inl err
                | Inr u \<Rightarrow> Inr (u\<lparr>tzinfo := Some 0\<rparr>)))
      | Some off \<Rightarrow>
          (case sub_timedelta dt off of
             Inl err \<Rightarrow> Inl err
           | Inr u \<Rightarrow> Inr (u\<lparr>tzinfo := Some 0\<rparr>)))"

text \<open>
  \<^verbatim>\<open>strftime("%Y%m%d")\<close> and \<^verbatim>\<open>strftime("%Y%m%dT%H%M%SZ")\<close>. The month, the day
  and the time fields are two digits each. The year is what the C library prints for
  \<^verbatim>\<open>%Y\<close>: glibc prints the decimal number of the year without padding, so a year
  below 1000 has fewer than four digits (\<^verbatim>\<open>date(999, 1, 2)\<close> gives \<^verbatim>\<open>9990102\<close>).
\<close>

definition strftime_date :: "'a date_scheme \<Rightarrow> string" where
  "strftime_date d = fmt_d 0 (year d) @ fmt_d 2 (month d) @ fmt_d 2 (day d)"

definition strftime_datetime :: "datetime \<Rightarrow> string" where
  "strftime_datetime dt =
     strftime_date dt @ ''T'' @ fmt_d 2 (hour dt) @ fmt_d 2 (minute dt) @ fmt_d 2 (second dt)
       @ ''Z''"

text \<open>
  \<^verbatim>\<open>
  def format_dt(dt):
      if isinstance(dt, datetime.date) and not isinstance(dt, datetime.datetime):
          return dt.strftime("%Y%m%d"), True
      if dt.tzinfo is None:
          dt_utc = dt.astimezone(datetime.timezone.utc) if hasattr(dt, "astimezone") else dt
      else:
          dt_utc = dt.astimezone(datetime.timezone.utc)
      return dt_utc.strftime("%Y%m%dT%H%M%SZ"), False
  \<close>
  A \<^verbatim>\<open>datetime\<close> always has \<^verbatim>\<open>astimezone\<close>. Any other object has no
  \<^verbatim>\<open>tzinfo\<close>.
\<close>

fun format_dt :: "env \<Rightarrow> pyval \<Rightarrow> error + (string \<times> bool)" where
  "format_dt e (PDate d) = Inr (strftime_date d, True)"
| "format_dt e (PDateTime dt) =
     (case (if tzinfo dt = None then astimezone_utc e dt else astimezone_utc e dt) of
        Inl err \<Rightarrow> Inl err
      | Inr dt_utc \<Rightarrow> Inr (strftime_datetime dt_utc, False))"
| "format_dt e v = Inl AttributeError"

section \<open>Building the calendar document\<close>

text \<open>
  An event is a dictionary with string keys. \<^verbatim>\<open>ev.get(k, default)\<close> and \<^verbatim>\<open>ev[k]\<close>:
\<close>

type_synonym event = "string \<rightharpoonup> pyval"

definition dict_get :: "event \<Rightarrow> string \<Rightarrow> pyval \<Rightarrow> pyval" where
  "dict_get ev k dflt = (case ev k of None \<Rightarrow> dflt | Some v \<Rightarrow> v)"

definition dict_item :: "event \<Rightarrow> string \<Rightarrow> error + pyval" where
  "dict_item ev k = (case ev k of None \<Rightarrow> Inl KeyError | Some v \<Rightarrow> Inr v)"

text \<open>
  The text an f-string puts for a value (\<^verbatim>\<open>format(v, "")\<close>, which is \<^verbatim>\<open>str(v)\<close> for
  these classes): a date in ISO form, a timestamp in ISO form with a space between date
  and time, the microseconds when they are not zero, and the offset of an aware one.
\<close>

definition isoformat_date :: "'a date_scheme \<Rightarrow> string" where
  "isoformat_date d = fmt_d 4 (year d) @ ''-'' @ fmt_d 2 (month d) @ ''-'' @ fmt_d 2 (day d)"

definition format_offset :: "int \<Rightarrow> string" where
  "format_offset off =
     (let a = \<bar>off\<bar>;
          hh = a div 3600000000;
          mm = (a mod 3600000000) div 60000000;
          ss = (a mod 3600000000) mod 60000000
      in (if off < 0 then ''-'' else ''+'') @ fmt_d 2 hh @ '':'' @ fmt_d 2 mm
         @ (if ss \<noteq> 0
            then '':'' @ fmt_d 2 (ss div 1000000)
                 @ (if ss mod 1000000 \<noteq> 0 then ''.'' @ fmt_d 6 (ss mod 1000000) else [])
            else []))"

fun py_str :: "pyval \<Rightarrow> string" where
  "py_str PNone = ''None''"
| "py_str (PInt n) = fmt_d 0 n"
| "py_str (PStr s) = s"
| "py_str (PDate d) = isoformat_date d"
| "py_str (PDateTime dt) =
     isoformat_date dt @ '' '' @ fmt_d 2 (hour dt) @ '':'' @ fmt_d 2 (minute dt) @ '':''
       @ fmt_d 2 (second dt)
       @ (if microsecond dt \<noteq> 0 then ''.'' @ fmt_d 6 (microsecond dt) else [])
       @ (case tzinfo dt of None \<Rightarrow> [] | Some off \<Rightarrow> format_offset off)"

text \<open>
  The state of \<^verbatim>\<open>build_ics\<close> while it runs: the list \<^verbatim>\<open>lines\<close>, what has been
  logged, and how many random identifiers have been drawn.
\<close>

datatype log_entry = LogWarning string | LogException pyval error

record state =
  lines :: "string list"
  logged :: "log_entry list"
  uuid_calls :: nat

text \<open>\<^verbatim>\<open>uid = ev.get("uid") or str(uuid.uuid4())\<close>\<close>

definition resolve_uid :: "env \<Rightarrow> event \<Rightarrow> state \<Rightarrow> pyval \<times> state" where
  "resolve_uid e ev s =
     (let u = dict_get ev ''uid'' PNone
      in if truthy u then (u, s)
         else (PStr (uuid4 e (uuid_calls s)), s\<lparr>uuid_calls := Suc (uuid_calls s)\<rparr>))"

text \<open>
  The body of the \<^verbatim>\<open>try\<close> statement for one event. \<open>Inr s\<close> is normal completion
  (also by \<^verbatim>\<open>continue\<close>) in state \<open>s\<close>; \<open>Inl (err, s)\<close> is the exception \<open>err\<close>
  raised in state \<open>s\<close>: what was appended to \<^verbatim>\<open>lines\<close> before the exception stays.
  \<^verbatim>\<open>
  uid = ev.get("uid") or str(uuid.uuid4())
  summary = _escape(ev.get("summary","No title"))
  location = _escape(ev.get("location",""))
  description = _escape(ev.get("description",""))
  start = ev.get("start")
  if not start:
      logging.warning("Skipping event without start: %s", summary)
      continue
  dtstr, is_date_only = format_dt(start)
  lines.append("BEGIN:VEVENT")
  lines.append(f"UID:{uid}")
  lines.append(f"DTSTAMP:{nowstamp}")
  if is_date_only:
      lines.append(f"DTSTART;VALUE=DATE:{dtstr}")
  else:
      lines.append(f"DTSTART:{dtstr}")
  if ev.get("end"):
      endstr, end_is_date = format_dt(ev["end"])
      if end_is_date:
          lines.append(f"DTEND;VALUE=DATE:{endstr}")
      else:
          lines.append(f"DTEND:{endstr}")
  lines.append(f"SUMMARY:{summary}")
  if location:
      lines.append(f"LOCATION:{location}")
  if description:
      lines.append(f"DESCRIPTION:{description}")
  lines.append("END:VEVENT")
  \<close>
\<close>

definition end_lines :: "env \<Rightarrow> event \<Rightarrow> error + string list" where
  "end_lines e ev =
     (if truthy (dict_get ev ''end'' PNone) then
        (case dict_item ev ''end'' of
           Inl err \<Rightarrow> Inl err
         | Inr v \<Rightarrow>
             (case format_dt e v of
                Inl err \<Rightarrow> Inl err
              | Inr (endstr, end_is_date) \<Rightarrow>
                  Inr [if end_is_date then ''DTEND;VALUE=DATE:'' @ endstr
                       else ''DTEND:'' @ endstr]))
      else Inr [])"

definition event_body :: "env \<Rightarrow> string \<Rightarrow> event \<Rightarrow> state \<Rightarrow> (error \<times> state) + state" where
  "event_body e nowstamp ev s0 =
     (case resolve_uid e ev s0 of (uid, s1) \<Rightarrow>
     (case escape (dict_get ev ''summary'' (PStr ''No title'')) of
        Inl err \<Rightarrow> Inl (err, s1)
      | Inr summary \<Rightarrow>
     (case escape (dict_get ev ''location'' (PStr [])) of
        Inl err \<Rightarrow> Inl (err, s1)
      | Inr location \<Rightarrow>
     (case escape (dict_get ev ''description'' (PStr [])) of
        Inl err \<Rightarrow> Inl (err, s1)
      | Inr description \<Rightarrow>
     (let start = dict_get ev ''start'' PNone in
      if \<not> truthy start then Inr (s1\<lparr>logged := logged s1 @ [LogWarning summary]\<rparr>)
      else
     (case format_dt e start of
        Inl err \<Rightarrow> Inl (err, s1)
      | Inr (dtstr, is_date_only) \<Rightarrow>
     (let s2 = s1\<lparr>lines := lines s1 @
                 [''BEGIN:VEVENT'', ''UID:'' @ py_str uid, ''DTSTAMP:'' @ nowstamp,
                  if is_date_only then ''DTSTART;VALUE=DATE:'' @ dtstr
                  else ''DTSTART:'' @ dtstr]\<rparr> in
     (case end_lines e ev of
        Inl err \<Rightarrow> Inl (err, s2)
      | Inr endl \<Rightarrow>
          Inr (s2\<lparr>lines := lines s2 @ endl @ [''SUMMARY:'' @ summary]
                   @ (if location \<noteq> [] then [''LOCATION:'' @ location] else [])
                   @ (if description \<noteq> [] then [''DESCRIPTION:'' @ description] else [])
                   @ [''END:VEVENT'']\<rparr>)))))))))"

text \<open>
  One turn of the loop: the body under its handler.
  \<^verbatim>\<open>
  except Exception as ex:
      logging.exception("Failed writing event %s: %s", ev.get("summary"), ex)
  \<close>
  The handler logs and returns; the result is a sum so that the loop below stops at an
  exception that leaves a turn, if there is one.
\<close>

definition process_event :: "env \<Rightarrow> string \<Rightarrow> event \<Rightarrow> state \<Rightarrow> error + state" where
  "process_event e nowstamp ev s =
     (case event_body e nowstamp ev s of
        Inr s' \<Rightarrow> Inr s'
      | Inl (ex, s') \<Rightarrow>
          Inr (s'\<lparr>logged := logged s' @ [LogException (dict_get ev ''summary'' PNone) ex]\<rparr>))"

fun ics_loop :: "env \<Rightarrow> string \<Rightarrow> event list \<Rightarrow> state \<Rightarrow> error + state" where
  "ics_loop e nowstamp [] s = Inr s"
| "ics_loop e nowstamp (ev # evs) s =
     (case process_event e nowstamp ev s of
        Inl err \<Rightarrow> Inl err
      | Inr s' \<Rightarrow> ics_loop e nowstamp evs s')"

text \<open>\<^verbatim>\<open>sep.join(xs)\<close>\<close>

fun join :: "string \<Rightarrow> string list \<Rightarrow> string" where
  "join sep [] = []"
| "join sep [x] = x"
| "join sep (x # y # ys) = x @ sep @ join sep (y # ys)"

definition header :: "string list" where
  "header = [''BEGIN:VCALENDAR'', ''VERSION:2.0'', ''CALSCALE:GREGORIAN'', ''METHOD:PUBLISH'',
             ''PRODID:-//Hull Events & Cinema//EN'']"

definition init_state :: state where
  "init_state = \<lparr>lines = header, logged = [], uuid_calls = 0\<rparr>"

definition nowstamp_of :: "env \<Rightarrow> string" where
  "nowstamp_of e = strftime_datetime (utcnow e)"

text \<open>
  \<^verbatim>\<open>build_ics\<close>: the state after the loop, and the document returned, paired with
  what was logged on the way.
\<close>

definition ics_run :: "env \<Rightarrow> event list \<Rightarrow> error + state" where
  "ics_run e events = ics_loop e (nowstamp_of e) events init_state"

definition build_ics :: "env \<Rightarrow> event list \<Rightarrow> error + (string \<times> log_entry list)" where
  "build_ics e events =
     (case ics_run e events of
        Inl err \<Rightarrow> Inl err
      | Inr s \<Rightarrow> Inr (join [CR, NL] (lines s @ [''END:VCALENDAR'']), logged s))"

text \<open>Splitting a document at its CRLF separators, from left to right.\<close>

fun split_crlf :: "string \<Rightarrow> string list" where
  "split_crlf [] = [[]]"
| "split_crlf (c # cs) =
     (if c = CR \<and> cs \<noteq> [] \<and> hd cs = NL then [] # split_crlf (tl cs)
      else (case split_crlf cs of [] \<Rightarrow> [[c]] | l # ls \<Rightarrow> (c # l) # ls))"

section \<open>Vocabulary for the properties\<close>

text \<open>
  The lines of one event block, grouped as the body appends them: the four lines up to
  the start line, and the lines from the optional end line to the end marker.
\<close>

definition dtstart_line :: "string \<times> bool \<Rightarrow> string" where
  "dtstart_line r = (if snd r then ''DTSTART;VALUE=DATE:'' @ fst r else ''DTSTART:'' @ fst r)"

definition block_head :: "env \<Rightarrow> string \<Rightarrow> event \<Rightarrow> state \<Rightarrow> string \<times> bool \<Rightarrow> string list" where
  "block_head e now ev s r =
     [''BEGIN:VEVENT'', ''UID:'' @ py_str (fst (resolve_uid e ev s)), ''DTSTAMP:'' @ now,
      dtstart_line r]"

definition block_tail :: "string list \<Rightarrow> string \<Rightarrow> string \<Rightarrow> string \<Rightarrow> string list" where
  "block_tail endl summary location description =
     endl @ [''SUMMARY:'' @ summary]
       @ (if location \<noteq> [] then [''LOCATION:'' @ location] else [])
       @ (if description \<noteq> [] then [''DESCRIPTION:'' @ description] else [])
       @ [''END:VEVENT'']"

definition starts_with :: "string \<Rightarrow> string \<Rightarrow> bool" where
  "starts_with p l = (take (length p) l = p)"


definition text_property :: "string \<Rightarrow> bool" where
  "text_property l =
     (starts_with ''SUMMARY:'' l \<or> starts_with ''LOCATION:'' l \<or> starts_with ''DESCRIPTION:'' l)"

text \<open>The lines that a turn of the loop can append.\<close>

definition event_line :: "string \<Rightarrow> bool" where
  "event_line l =
     (l = ''BEGIN:VEVENT'' \<or> l = ''END:VEVENT'' \<or> starts_with ''UID:'' l \<or>
      starts_with ''DTSTAMP:'' l \<or> starts_with ''DTSTART'' l \<or> starts_with ''DTEND'' l \<or>
      (text_property l \<and> NL \<notin> set l))"






section \<open>Example inputs\<close>

text \<open>
  Surroundings with a local time zone one hour ahead of UTC (British Summer Time), and
  events: an all-day event, an event whose end is a text, an event whose start is a
  number, and events without a start.
\<close>

definition example_env :: env where
  "example_env =
     \<lparr>utcnow = \<lparr>year = 2024, month = 5, day = 1, hour = 12, minute = 0, second = 0,
                 microsecond = 0, tzinfo = None\<rparr>,
      local_utcoffset = (\<lambda>dt. Inr 3600),
      uuid4 = (\<lambda>k. ''id-'' @ digits k)\<rparr>"

definition ev_allday :: event where
  "ev_allday = [''start'' \<mapsto> PDate \<lparr>year = 2024, month = 6, day = 15\<rparr>,
                ''summary'' \<mapsto> PStr ''A, B'']"

definition ev_bad_end :: event where
  "ev_bad_end = [''start'' \<mapsto> PDate \<lparr>year = 2024, month = 6, day = 15\<rparr>,
                 ''end'' \<mapsto> PStr ''tomorrow'']"





definition ev_multiline :: event where
  "ev_multiline = [''start'' \<mapsto> PDate \<lparr>year = 2024, month = 6, day = 15\<rparr>,
                   ''summary'' \<mapsto> PStr [CHR ''A'', NL, CHR ''B''],
                   ''description'' \<mapsto> PStr [CHR ''x'', CR, NL, CHR ''y'']]"








section \<open>Properties of escaping\<close>

lemma str_replace_char:
  "str_replace [a] new s = concat (map (\<lambda>x. if x = a then new else [x]) s)"
  by (induction s) auto

lemma concat_map_concat_map:
  "concat (map g (concat (map f s))) = concat (map (\<lambda>x. concat (map g (f x))) s)"
  by (induction s) auto

lemma escape_chain_esc_char:
  "str_replace '';'' [BSL, CHR '';'']
     (str_replace '','' [BSL, CHR '','']
       (str_replace [NL] [BSL, CHR ''n'']
         (str_replace [BSL] [BSL, BSL] s))) = concat (map esc_char s)"
proof -
  have "(\<lambda>x. concat (map (\<lambda>x. if x = CHR '';'' then [BSL, CHR '';''] else [x])
          (concat (map (\<lambda>x. if x = CHR '','' then [BSL, CHR '',''] else [x])
            (concat (map (\<lambda>x. if x = NL then [BSL, CHR ''n''] else [x])
              (if x = BSL then [BSL, BSL] else [x])))))))
        = esc_char"
    by (rule ext) (simp add: esc_char_def)
  then show ?thesis
    by (simp only: str_replace_char concat_map_concat_map)
qed

lemma escape_str: "escape (PStr s) = Inr (concat (map esc_char s))"
  using escape_chain_esc_char [of s] by simp

lemma unescape_esc_char_append: "unescape (esc_char c @ r) = c # unescape r"
  by (cases r) (simp_all add: esc_char_def)

lemma unescape_esc_char: "unescape (concat (map esc_char s)) = s"
  by (induction s) (simp_all add: unescape_esc_char_append)

text \<open>
  C3. For every string, \<^verbatim>\<open>_escape\<close> returns the string in which each backslash has
  become two backslashes, each newline a backslash and \<open>n\<close>, each comma a backslash and
  a comma, each semicolon a backslash and a semicolon, and every other character is
  kept: replacing the backslash first keeps the backslashes inserted by the later
  replacements from being doubled. Unescaping the result gives the original string back.
\<close>

theorem escape_roundtrip:
  "escape (PStr s) = Inr (concat (map esc_char s)) \<and>
   unescape (concat (map esc_char s)) = s"
  by (simp only: escape_str unescape_esc_char)

theorem escape_roundtrip_witness:
  "escape (PStr [CHR ''A'', CHR '','', BSL, NL, CHR '';''])
     = Inr [CHR ''A'', BSL, CHR '','', BSL, BSL, BSL, CHR ''n'', BSL, CHR '';''] \<and>
   unescape [CHR ''A'', BSL, CHR '','', BSL, BSL, BSL, CHR ''n'', BSL, CHR '';'']
     = [CHR ''A'', CHR '','', BSL, NL, CHR '';'']"
  using escape_roundtrip [of "[CHR ''A'', CHR '','', BSL, NL, CHR '';'']"]
  by (simp add: esc_char_def)
section \<open>Properties of one turn of the loop\<close>

text \<open>The definitions that evaluate \<^verbatim>\<open>build_ics\<close> on a given input.\<close>

lemmas eval_defs =
  build_ics_def ics_run_def init_state_def process_event_def event_body_def resolve_uid_def
  dict_get_def dict_item_def end_lines_def nowstamp_of_def strftime_datetime_def
  strftime_date_def fmt_d_def zfill_def digits.simps example_env_def header_def Let_def

lemma end_lines_shape:
  "end_lines e ev = Inr endl \<Longrightarrow>
   endl = [] \<or> (\<exists>x. endl = [''DTEND;VALUE=DATE:'' @ x]) \<or> (\<exists>x. endl = [''DTEND:'' @ x])"
  by (auto simp: end_lines_def split: if_splits sum.splits prod.splits)

lemma resolve_uid_lines [simp]: "lines (snd (resolve_uid e ev s)) = lines s"
  by (simp add: resolve_uid_def Let_def)

lemma resolve_uid_logged [simp]: "logged (snd (resolve_uid e ev s)) = logged s"
  by (simp add: resolve_uid_def Let_def)

lemma event_body_cases [case_names early nostart partial complete]:
  obtains
    (early) err where
      "event_body e now ev s = Inl (err, snd (resolve_uid e ev s))"
      "escape (dict_get ev ''summary'' (PStr ''No title'')) = Inl err \<or>
       escape (dict_get ev ''location'' (PStr [])) = Inl err \<or>
       escape (dict_get ev ''description'' (PStr [])) = Inl err \<or>
       (truthy (dict_get ev ''start'' PNone) \<and> format_dt e (dict_get ev ''start'' PNone) = Inl err)"
  | (nostart) summary location description where
      "escape (dict_get ev ''summary'' (PStr ''No title'')) = Inr summary"
      "escape (dict_get ev ''location'' (PStr [])) = Inr location"
      "escape (dict_get ev ''description'' (PStr [])) = Inr description"
      "\<not> truthy (dict_get ev ''start'' PNone)"
      "event_body e now ev s =
         Inr ((snd (resolve_uid e ev s))\<lparr>logged := logged s @ [LogWarning summary]\<rparr>)"
  | (partial) err r where
      "format_dt e (dict_get ev ''start'' PNone) = Inr r"
      "end_lines e ev = Inl err"
      "event_body e now ev s =
         Inl (err, (snd (resolve_uid e ev s))\<lparr>lines := lines s @ block_head e now ev s r\<rparr>)"
  | (complete) r endl summary location description where
      "format_dt e (dict_get ev ''start'' PNone) = Inr r"
      "end_lines e ev = Inr endl"
      "escape (dict_get ev ''summary'' (PStr ''No title'')) = Inr summary"
      "escape (dict_get ev ''location'' (PStr [])) = Inr location"
      "escape (dict_get ev ''description'' (PStr [])) = Inr description"
      "event_body e now ev s =
         Inr ((snd (resolve_uid e ev s))\<lparr>lines := lines s @ block_head e now ev s r
                @ block_tail endl summary location description\<rparr>)"
proof (cases "resolve_uid e ev s")
  case (Pair uid s1)
  have s1 [simp]: "lines s1 = lines s" "logged s1 = logged s"
    using resolve_uid_lines [of e ev s] resolve_uid_logged [of e ev s] Pair by simp_all
  show ?thesis
  proof (cases "escape (dict_get ev ''summary'' (PStr ''No title''))")
    case (Inl err)
    with Pair show ?thesis by (intro early [of err]) (simp_all add: event_body_def)
  next
    case su: (Inr summary)
    show ?thesis
    proof (cases "escape (dict_get ev ''location'' (PStr []))")
      case (Inl err)
      with Pair su show ?thesis by (intro early [of err]) (simp_all add: event_body_def)
    next
      case lo: (Inr location)
      show ?thesis
      proof (cases "escape (dict_get ev ''description'' (PStr []))")
        case (Inl err)
        with Pair su lo show ?thesis by (intro early [of err]) (simp_all add: event_body_def)
      next
        case de: (Inr description)
        show ?thesis
        proof (cases "truthy (dict_get ev ''start'' PNone)")
          case False
          with Pair su lo de show ?thesis
            by (intro nostart [of summary location description])
               (simp_all add: event_body_def)
        next
          case tr: True
          show ?thesis
          proof (cases "format_dt e (dict_get ev ''start'' PNone)")
            case (Inl err)
            with Pair su lo de tr show ?thesis
              by (intro early [of err]) (simp_all add: event_body_def)
          next
            case fd: (Inr r)
            show ?thesis
            proof (cases "end_lines e ev")
              case (Inl err)
              with Pair su lo de tr fd show ?thesis
                by (intro partial [of r err])
                   (simp_all add: event_body_def block_head_def dtstart_line_def split: prod.splits)
            next
              case (Inr endl)
              with Pair su lo de tr fd show ?thesis
                by (intro complete [of r endl summary location description])
                   (simp_all add: event_body_def block_head_def block_tail_def dtstart_line_def
                      split: prod.splits)
            qed
          qed
        qed
      qed
    qed
  qed
qed

lemma process_event_returns: "\<exists>s'. process_event e now ev s = Inr s'"
  by (cases rule: event_body_cases [of e now ev s]) (simp_all add: process_event_def)

lemma ics_loop_returns: "\<exists>s'. ics_loop e now evs s = Inr s'"
proof (induction evs arbitrary: s)
  case Nil
  show ?case by simp
next
  case (Cons ev evs)
  obtain s1 where "process_event e now ev s = Inr s1"
    using process_event_returns by blast
  with Cons [of s1] show ?case by simp
qed


text \<open>What one turn adds to the lines, to the log and to the count of identifiers drawn.\<close>

lemma process_event_cases [case_names dropped partial complete]:
  obtains
    (dropped) x where
      "process_event e now ev s = Inr ((snd (resolve_uid e ev s))\<lparr>logged := logged s @ [x]\<rparr>)"
  | (partial) err r where
      "format_dt e (dict_get ev ''start'' PNone) = Inr r"
      "end_lines e ev = Inl err"
      "process_event e now ev s =
         Inr ((snd (resolve_uid e ev s))
               \<lparr>lines := lines s @ block_head e now ev s r,
                logged := logged s @ [LogException (dict_get ev ''summary'' PNone) err]\<rparr>)"
  | (complete) r endl summary location description where
      "format_dt e (dict_get ev ''start'' PNone) = Inr r"
      "end_lines e ev = Inr endl"
      "escape (dict_get ev ''summary'' (PStr ''No title'')) = Inr summary"
      "escape (dict_get ev ''location'' (PStr [])) = Inr location"
      "escape (dict_get ev ''description'' (PStr [])) = Inr description"
      "process_event e now ev s =
         Inr ((snd (resolve_uid e ev s))\<lparr>lines := lines s @ block_head e now ev s r
                @ block_tail endl summary location description\<rparr>)"
proof (cases rule: event_body_cases [of e now ev s])
  case (early err)
  then show ?thesis
    by (intro dropped [of "LogException (dict_get ev ''summary'' PNone) err"])
       (simp add: process_event_def)
next
  case (nostart summary location description)
  then show ?thesis
    by (intro dropped [of "LogWarning summary"]) (simp add: process_event_def)
next
  case (partial err r)
  then show ?thesis
    by (intro that(2) [of r err]) (simp_all add: process_event_def)
next
  case (complete r endl summary location description)
  then show ?thesis
    by (intro that(3) [of r endl summary location description])
       (simp_all add: process_event_def)
qed

lemma escape_no_newline: "escape v = Inr t \<Longrightarrow> NL \<notin> set t"
proof (cases v)
  case (PStr s)
  assume "escape v = Inr t"
  with PStr have "t = concat (map esc_char s)" using escape_str [of s] by simp
  then show ?thesis by (auto simp: esc_char_def split: if_splits)
qed (auto split: if_splits)



section \<open>The lines of the document\<close>

lemma block_head_event_lines: "\<forall>l\<in>set (block_head e now ev s r). event_line l"
  by (simp add: block_head_def dtstart_line_def event_line_def starts_with_def)

lemma text_event_lines:
  assumes "NL \<notin> set x"
  shows "event_line (''SUMMARY:'' @ x)" "event_line (''LOCATION:'' @ x)"
    "event_line (''DESCRIPTION:'' @ x)"
  using assms by (simp_all add: event_line_def text_property_def starts_with_def)

lemma end_event_line: "event_line ''END:VEVENT''"
  by (simp add: event_line_def)

lemma block_tail_event_lines:
  assumes "end_lines e ev = Inr endl" "escape a = Inr summary" "escape b = Inr location"
    "escape c = Inr description"
  shows "\<forall>l\<in>set (block_tail endl summary location description). event_line l"
proof -
  have "\<forall>l\<in>set endl. event_line l"
    using end_lines_shape [OF assms(1)] by (auto simp: event_line_def starts_with_def)
  moreover have "NL \<notin> set summary" "NL \<notin> set location" "NL \<notin> set description"
    using assms(2-4) by (simp_all add: escape_no_newline)
  ultimately show ?thesis
    using text_event_lines(1) [of summary] text_event_lines(2) [of location]
      text_event_lines(3) [of description]
    by (auto simp: block_tail_def end_event_line)
qed

lemma process_event_new_lines:
  "\<exists>s' new. process_event e now ev s = Inr s' \<and> lines s' = lines s @ new \<and>
     (\<forall>l\<in>set new. event_line l)"
proof (cases rule: process_event_cases [of e now ev s])
  case (dropped x)
  then show ?thesis by simp
next
  case (partial err r)
  then show ?thesis using block_head_event_lines [of e now ev s r] by simp
next
  case (complete r endl summary location description)
  have "\<forall>l\<in>set (block_head e now ev s r @ block_tail endl summary location description).
          event_line l"
    using block_head_event_lines [of e now ev s r]
      block_tail_event_lines [OF complete(2-5)] by auto
  with complete(6) show ?thesis by simp
qed

lemma ics_loop_new_lines:
  "\<exists>s' new. ics_loop e now evs s = Inr s' \<and> lines s' = lines s @ new \<and>
     (\<forall>l\<in>set new. event_line l)"
proof (induction evs arbitrary: s)
  case Nil
  show ?case by simp
next
  case (Cons ev evs)
  obtain s1 new1 where 1: "process_event e now ev s = Inr s1" "lines s1 = lines s @ new1"
    "\<forall>l\<in>set new1. event_line l"
    using process_event_new_lines by blast
  obtain s2 new2 where 2: "ics_loop e now evs s1 = Inr s2" "lines s2 = lines s1 @ new2"
    "\<forall>l\<in>set new2. event_line l"
    using Cons [of s1] by blast
  from 1 2 have "ics_loop e now (ev # evs) s = Inr s2 \<and> lines s2 = lines s @ (new1 @ new2) \<and>
    (\<forall>l\<in>set (new1 @ new2). event_line l)"
    by auto
  then show ?case by blast
qed

lemma event_line_not_footer: "event_line l \<Longrightarrow> l \<noteq> ''END:VCALENDAR''"
  by (auto simp: event_line_def text_property_def starts_with_def)

lemma split_crlf_nonempty: "split_crlf s \<noteq> []"
  by (induction s rule: split_crlf.induct) (auto split: list.splits)

lemma split_crlf_no_newline: "NL \<notin> set l \<Longrightarrow> split_crlf l = [l]"
proof (induction l)
  case Nil
  show ?case by simp
next
  case (Cons c cs)
  from Cons.prems have "NL \<notin> set cs" by simp
  then have "\<not> (cs \<noteq> [] \<and> hd cs = NL)" by (metis hd_in_set)
  with Cons show ?case by simp
qed

lemma split_crlf_append: "split_crlf (a @ CR # NL # b) = split_crlf a @ split_crlf b"
proof (induction a rule: split_crlf.induct)
  case 1
  show ?case by simp
next
  case (2 c cs)
  show ?case
  proof (cases "c = CR \<and> cs \<noteq> [] \<and> hd cs = NL")
    case True
    then obtain cs' where cs: "cs = NL # cs'" by (cases cs) auto
    with True 2 show ?thesis by simp
  next
    case False
    then have *: "\<not> (c = CR \<and> cs @ CR # NL # b \<noteq> [] \<and> hd (cs @ CR # NL # b) = NL)"
      by (cases cs) auto
    obtain l ls where sp: "split_crlf cs = l # ls"
      using split_crlf_nonempty [of cs] by (cases "split_crlf cs") auto
    from False 2 have IH: "split_crlf (cs @ CR # NL # b) = split_crlf cs @ split_crlf b"
      by simp
    have "split_crlf ((c # cs) @ CR # NL # b) = split_crlf (c # (cs @ CR # NL # b))"
      by simp
    also have "\<dots> =
            (case split_crlf (cs @ CR # NL # b) of [] \<Rightarrow> [[c]] | l # ls \<Rightarrow> (c # l) # ls)"
      by (simp only: split_crlf.simps(2) * if_False)
    also have "\<dots> = ((c # l) # ls) @ split_crlf b" using IH sp by simp
    also have "\<dots> = split_crlf (c # cs) @ split_crlf b" using False sp by simp
    finally show ?thesis .
  qed
qed

lemma split_crlf_join:
  "ls \<noteq> [] \<Longrightarrow> split_crlf (join [CR, NL] ls) = concat (map split_crlf ls)"
proof (induction ls)
  case Nil
  then show ?case by simp
next
  case (Cons x ls)
  show ?case
  proof (cases ls)
    case Nil
    then show ?thesis by simp
  next
    case (Cons y ys)
    with Cons.IH have "split_crlf (join [CR, NL] (y # ys)) = concat (map split_crlf (y # ys))"
      by simp
    with Cons show ?thesis
      using split_crlf_append [of x "join [CR, NL] (y # ys)"] by simp
  qed
qed

section \<open>The claims about the document\<close>

lemma ics_run_lines:
  "\<exists>s body. ics_run e evs = Inr s \<and> lines s = header @ body \<and> (\<forall>l\<in>set body. event_line l)"
  using ics_loop_new_lines [of e "nowstamp_of e" evs init_state]
  by (auto simp: ics_run_def init_state_def)

text \<open>
  C4. For every list of events, also the empty one, \<^verbatim>\<open>build_ics\<close> returns a document
  that is the CRLF-join of the five header lines, in their order, the lines of the events,
  and the footer line \<^verbatim>\<open>END:VCALENDAR\<close>; no line of the events is the footer line, so
  the footer occurs once, at the end.
\<close>

theorem build_ics_framing:
  "\<exists>body lg. build_ics e evs =
       Inr (join [CR, NL]
             ([''BEGIN:VCALENDAR'', ''VERSION:2.0'', ''CALSCALE:GREGORIAN'', ''METHOD:PUBLISH'',
               ''PRODID:-//Hull Events & Cinema//EN''] @ body @ [''END:VCALENDAR'']), lg) \<and>
     ''END:VCALENDAR'' \<notin> set body"
proof -
  obtain s body where s: "ics_run e evs = Inr s" "lines s = header @ body"
    "\<forall>l\<in>set body. event_line l"
    using ics_run_lines by blast
  from s(3) have "''END:VCALENDAR'' \<notin> set body"
    using event_line_not_footer by blast
  moreover from s(1,2) have "build_ics e evs =
       Inr (join [CR, NL] (header @ body @ [''END:VCALENDAR'']), logged s)"
    by (simp add: build_ics_def)
  ultimately show ?thesis unfolding header_def by blast
qed

lemma example_empty_document:
  "build_ics example_env [] =
     Inr (''BEGIN:VCALENDAR'' @ [CR, NL] @ ''VERSION:2.0'' @ [CR, NL] @ ''CALSCALE:GREGORIAN''
          @ [CR, NL] @ ''METHOD:PUBLISH'' @ [CR, NL] @ ''PRODID:-//Hull Events & Cinema//EN''
          @ [CR, NL] @ ''END:VCALENDAR'', [])"
  by (simp add: eval_defs)

theorem build_ics_framing_witness:
  "(\<exists>body lg. build_ics example_env [ev_allday, ev_bad_end] =
       Inr (join [CR, NL]
             ([''BEGIN:VCALENDAR'', ''VERSION:2.0'', ''CALSCALE:GREGORIAN'', ''METHOD:PUBLISH'',
               ''PRODID:-//Hull Events & Cinema//EN''] @ body @ [''END:VCALENDAR'']), lg) \<and>
     ''END:VCALENDAR'' \<notin> set body) \<and>
   build_ics example_env [] =
     Inr (''BEGIN:VCALENDAR'' @ [CR, NL] @ ''VERSION:2.0'' @ [CR, NL] @ ''CALSCALE:GREGORIAN''
          @ [CR, NL] @ ''METHOD:PUBLISH'' @ [CR, NL] @ ''PRODID:-//Hull Events & Cinema//EN''
          @ [CR, NL] @ ''END:VCALENDAR'', [])"
  by (rule conjI [OF build_ics_framing [of example_env "[ev_allday, ev_bad_end]"]
        example_empty_document])

lemma build_ics_of_run:
  "ics_run e evs = Inr s \<Longrightarrow>
   build_ics e evs = Inr (join [CR, NL] (lines s @ [''END:VCALENDAR'']), logged s)"
  by (simp add: build_ics_def)

lemma header_no_text_property: "l \<in> set header \<Longrightarrow> \<not> text_property l"
  by (auto simp: header_def text_property_def starts_with_def)

lemma starts_with_Nil: "starts_with [] l"
  by (simp add: starts_with_def)

lemma starts_with_Cons:
  "starts_with (c # p) l = (case l of [] \<Rightarrow> False | x # xs \<Rightarrow> x = c \<and> starts_with p xs)"
  by (cases l) (auto simp: starts_with_def)

lemma event_line_text_no_newline: "event_line l \<Longrightarrow> text_property l \<Longrightarrow> NL \<notin> set l"
  unfolding event_line_def text_property_def
  by (auto simp: starts_with_Cons split: list.splits)

text \<open>
  C10. Whatever \<^verbatim>\<open>_escape\<close> returns holds no newline character. So in the document
  returned for any list of events, which splits at its CRLF separators into the pieces
  of the lines that were joined, every \<^verbatim>\<open>SUMMARY\<close>, \<^verbatim>\<open>LOCATION\<close> and
  \<^verbatim>\<open>DESCRIPTION\<close> line holds no newline and is one piece: exactly one line of the
  document.
\<close>

theorem text_properties_single_line:
  "(escape v = Inr t \<longrightarrow> NL \<notin> set t) \<and>
   (\<exists>s doc lg. ics_run e evs = Inr s \<and> build_ics e evs = Inr (doc, lg) \<and>
      split_crlf doc = concat (map split_crlf (lines s @ [''END:VCALENDAR''])) \<and>
      (\<forall>l\<in>set (lines s). text_property l \<longrightarrow> NL \<notin> set l \<and> split_crlf l = [l]))"
proof -
  obtain s body where s: "ics_run e evs = Inr s" "lines s = header @ body"
    "\<forall>l\<in>set body. event_line l"
    using ics_run_lines by blast
  have "NL \<notin> set l \<and> split_crlf l = [l]" if "l \<in> set (lines s)" "text_property l" for l
  proof -
    from that s(2) header_no_text_property have "l \<in> set body" by auto
    with s(3) that(2) have "NL \<notin> set l" using event_line_text_no_newline by blast
    then show ?thesis by (simp add: split_crlf_no_newline)
  qed
  moreover have "split_crlf (join [CR, NL] (lines s @ [''END:VCALENDAR'']))
      = concat (map split_crlf (lines s @ [''END:VCALENDAR'']))"
    by (rule split_crlf_join) simp
  ultimately show ?thesis
    using s(1) build_ics_of_run [OF s(1)] escape_no_newline [of v t] by blast
qed

lemma example_multiline_lines:
  "map_sum id lines (ics_run example_env [ev_multiline]) =
     Inr (header @
          [''BEGIN:VEVENT'', ''UID:id-0'', ''DTSTAMP:20240501T120000Z'',
           ''DTSTART;VALUE=DATE:20240615'', ''SUMMARY:A'' @ [BSL] @ ''nB'',
           ''DESCRIPTION:x'' @ [CR, BSL] @ ''ny'', ''END:VEVENT''])"
  by (simp add: eval_defs ev_multiline_def)

theorem text_properties_single_line_witness:
  "escape (PStr [CHR ''A'', NL, CHR ''B'']) = Inr [CHR ''A'', BSL, CHR ''n'', CHR ''B''] \<and>
   NL \<notin> set [CHR ''A'', BSL, CHR ''n'', CHR ''B''] \<and>
   (\<exists>s doc lg. ics_run example_env [ev_multiline] = Inr s \<and>
      build_ics example_env [ev_multiline] = Inr (doc, lg) \<and>
      split_crlf doc = concat (map split_crlf (lines s @ [''END:VCALENDAR''])) \<and>
      (\<forall>l\<in>set (lines s). text_property l \<longrightarrow> NL \<notin> set l \<and> split_crlf l = [l])) \<and>
   map_sum id lines (ics_run example_env [ev_multiline]) =
     Inr (header @
          [''BEGIN:VEVENT'', ''UID:id-0'', ''DTSTAMP:20240501T120000Z'',
           ''DTSTART;VALUE=DATE:20240615'', ''SUMMARY:A'' @ [BSL] @ ''nB'',
           ''DESCRIPTION:x'' @ [CR, BSL] @ ''ny'', ''END:VEVENT''])"
proof -
  have e: "escape (PStr [CHR ''A'', NL, CHR ''B'']) = Inr [CHR ''A'', BSL, CHR ''n'', CHR ''B'']"
    by simp
  note t = text_properties_single_line [of "PStr [CHR ''A'', NL, CHR ''B'']"
      "[CHR ''A'', BSL, CHR ''n'', CHR ''B'']" example_env "[ev_multiline]"]
  from t e have "NL \<notin> set [CHR ''A'', BSL, CHR ''n'', CHR ''B'']" by blast
  with t e example_multiline_lines show ?thesis by blast
qed

lemma ics_run_returns: "\<exists>s. ics_run e evs = Inr s"
  unfolding ics_run_def by (rule ics_loop_returns)

lemma build_ics_returns_aux: "\<exists>doc lg. build_ics e evs = Inr (doc, lg)"
  using ics_run_returns [of e evs] by (auto simp: build_ics_def)












text \<open>
  C2. The record is dropped without a trace only when the exception comes before the
  first \<^verbatim>\<open>lines.append\<close>. An end that cannot be formatted raises after the block has
  been opened: for the event whose end is a text, the lines \<^verbatim>\<open>BEGIN:VEVENT\<close>,
  \<^verbatim>\<open>UID\<close>, \<^verbatim>\<open>DTSTAMP\<close> and \<^verbatim>\<open>DTSTART\<close> stay in the document, with no
  \<^verbatim>\<open>END:VEVENT\<close>, and the document differs from the one for the list without the
  record.
\<close>

theorem end_fault_leaves_open_block:
  "map_sum id lines (ics_run example_env [ev_bad_end]) =
     Inr (header @ [''BEGIN:VEVENT'', ''UID:id-0'', ''DTSTAMP:20240501T120000Z'',
                    ''DTSTART;VALUE=DATE:20240615'']) \<and>
   map_sum id logged (ics_run example_env [ev_bad_end])
     = Inr [LogException PNone AttributeError] \<and>
   map_sum id lines (ics_run example_env []) = Inr header \<and>
   map_sum id fst (build_ics example_env [ev_bad_end]) \<noteq> map_sum id fst (build_ics example_env [])"
  by (simp add: eval_defs ev_bad_end_def)




section \<open>Decimal numbers\<close>














section \<open>Identifiers\<close>

















section \<open>Date stamps\<close>

lemma month_cases:
  "1 \<le> m \<Longrightarrow> m \<le> 12 \<Longrightarrow> m \<in> {1, 2, 3, 4, 5, 6, 7, 8, 9, 10, 11, 12 :: int}"
  by auto arith







section \<open>The calendar\<close>

lemma div_pred:
  fixes y k :: int
  assumes "0 < k"
  shows "(y - 1) div k = (if y mod k = 0 then y div k - 1 else y div k)"
proof (cases "y mod k = 0")
  case True
  have "y = k * (y div k) + y mod k" by simp
  with True have "y - 1 = k * (y div k - 1) + (k - 1)" by (simp add: algebra_simps)
  from int_div_pos_eq [OF this] assms True show ?thesis by simp
next
  case False
  have "y = k * (y div k) + y mod k" by simp
  then have eq: "y - 1 = k * (y div k) + (y mod k - 1)" by simp
  from assms have "0 \<le> y mod k" "y mod k < k" by simp_all
  with False have "0 \<le> y mod k - 1" "y mod k - 1 < k" by simp_all
  from int_div_pos_eq [OF eq this] False show ?thesis by simp
qed

lemma mod_400_100: "(y::int) mod 400 = 0 \<Longrightarrow> y mod 100 = 0"
  using mod_mod_cancel [of 100 400 y] by simp

lemma mod_100_4: "(y::int) mod 100 = 0 \<Longrightarrow> y mod 4 = 0"
  using mod_mod_cancel [of 4 100 y] by simp

lemma days_before_year_Suc:
  "days_before_year (y + 1) = days_before_year y + (if is_leap y then 366 else 365)"
proof -
  have d4: "(y - 1) div 4 = (if y mod 4 = 0 then y div 4 - 1 else y div 4)"
    by (rule div_pred) simp
  have d100: "(y - 1) div 100 = (if y mod 100 = 0 then y div 100 - 1 else y div 100)"
    by (rule div_pred) simp
  have d400: "(y - 1) div 400 = (if y mod 400 = 0 then y div 400 - 1 else y div 400)"
    by (rule div_pred) simp
  show ?thesis
    using mod_400_100 [of y] mod_100_4 [of y]
    by (auto simp: days_before_year_def is_leap_def d4 d100 d400)
qed

lemma days_before_year_step: "days_before_year y \<le> days_before_year (y + 1)"
  by (simp add: days_before_year_Suc)

lemma days_before_year_mono: "y \<le> y' \<Longrightarrow> days_before_year y \<le> days_before_year y'"
proof (induction y' rule: int_ge_induct)
  case base
  show ?case by simp
next
  case (step i)
  with days_before_year_step [of i] show ?case by simp
qed

lemma leap_days_nonneg: "0 \<le> (y::int) \<Longrightarrow> 0 \<le> y div 4 - y div 100 + y div 400"
proof -
  assume y: "0 \<le> y"
  then have "y div 100 \<le> y div 4" by (rule zdiv_mono2) simp_all
  moreover from y have "0 \<le> y div 400" by simp
  ultimately show ?thesis by simp
qed

lemma days_before_year_lower:
  assumes "0 \<le> y"
  shows "y * 365 \<le> days_before_year (y + 1)"
  using leap_days_nonneg [OF assms] by (simp add: days_before_year_def)

lemma days_before_year_estimate:
  assumes "1 \<le> n"
  shows "n \<le> days_before_year ((n - 1) div 365 + 1 + 1)"
proof -
  define q r where "q = (n - 1) div 365" and "r = (n - 1) mod 365"
  from assms have q: "0 \<le> q" by (simp add: q_def)
  have "n - 1 = 365 * q + r" by (simp add: q_def r_def)
  moreover have "r < 365" by (simp add: r_def)
  ultimately have "n \<le> (q + 1) * 365" by simp
  also have "\<dots> \<le> days_before_year (q + 1 + 1)"
    using days_before_year_lower [of "q + 1"] q by simp
  finally show ?thesis by (simp add: q_def)
qed

lemma year_of_ord_bounds:
  "1 \<le> n \<Longrightarrow> 1 \<le> y0 \<Longrightarrow> n \<le> days_before_year (y0 + 1) \<Longrightarrow>
   1 \<le> year_of_ord n y0 \<and> year_of_ord n y0 \<le> y0 \<and>
   days_before_year (year_of_ord n y0) < n \<and> n \<le> days_before_year (year_of_ord n y0 + 1)"
proof (induction n y0 rule: year_of_ord.induct)
  case (1 n y)
  show ?case
  proof (cases "y \<le> 1 \<or> days_before_year y < n")
    case True
    then have eq: "year_of_ord n y = y" by (subst year_of_ord.simps) simp
    have "days_before_year y < n"
    proof (cases "days_before_year y < n")
      case False
      with True "1.prems" have "y = 1" by simp
      with "1.prems" show ?thesis by (simp add: days_before_year_def)
    qed simp
    with eq "1.prems" show ?thesis by simp
  next
    case False
    then have eq: "year_of_ord n y = year_of_ord n (y - 1)" by (subst year_of_ord.simps) simp
    from False "1.prems" have "1 \<le> y - 1" "n \<le> days_before_year (y - 1 + 1)" by simp_all
    from "1.IH" [OF False "1.prems"(1) this] eq show ?thesis by simp
  qed
qed

lemma days_before_month_Suc:
  assumes "1 \<le> m" "m \<le> 11"
  shows "days_before_month y (m + 1) = days_before_month y m + days_in_month y m"
proof -
  from assms have "m \<in> {1, 2, 3, 4, 5, 6, 7, 8, 9, 10, 11, 12}" by (intro month_cases) simp_all
  with assms(2) show ?thesis
    by (auto simp: days_before_month_def days_in_month_def)
qed

lemma days_before_month_1: "days_before_month y 1 = 0"
  by (simp add: days_before_month_def)

lemma days_in_year:
  "days_before_month y 12 + days_in_month y 12 = (if is_leap y then 366 else 365)"
  by (simp add: days_before_month_def days_in_month_def)

lemma days_in_month_pos: "1 \<le> m \<Longrightarrow> m \<le> 12 \<Longrightarrow> 28 \<le> days_in_month y m"
  by (drule (1) month_cases) (auto simp: days_in_month_def)

lemma month_of_ord_bounds:
  "1 \<le> r \<Longrightarrow> 1 \<le> m0 \<Longrightarrow> m0 \<le> 12 \<Longrightarrow> r \<le> days_before_month y m0 + days_in_month y m0 \<Longrightarrow>
   1 \<le> month_of_ord y r m0 \<and> month_of_ord y r m0 \<le> m0 \<and>
   days_before_month y (month_of_ord y r m0) < r \<and>
   r \<le> days_before_month y (month_of_ord y r m0) + days_in_month y (month_of_ord y r m0)"
proof (induction y r m0 rule: month_of_ord.induct)
  case (1 y r m)
  show ?case
  proof (cases "m \<le> 1 \<or> days_before_month y m < r")
    case True
    then have eq: "month_of_ord y r m = m" by (subst month_of_ord.simps) simp
    have "days_before_month y m < r"
    proof (cases "days_before_month y m < r")
      case False
      with True "1.prems" have "m = 1" by simp
      with "1.prems" show ?thesis by (simp add: days_before_month_1)
    qed simp
    with eq "1.prems" show ?thesis by simp
  next
    case False
    then have eq: "month_of_ord y r m = month_of_ord y r (m - 1)"
      by (subst month_of_ord.simps) simp
    from False "1.prems" have m: "1 \<le> m - 1" "m - 1 \<le> 11" by simp_all
    from days_before_month_Suc [OF m, of y] False
    have "r \<le> days_before_month y (m - 1) + days_in_month y (m - 1)" by simp
    moreover from m have "m - 1 \<le> 12" by simp
    ultimately show ?thesis using "1.IH" [OF False "1.prems"(1) m(1)] eq by simp
  qed
qed

text \<open>The date with a day number is a day of the calendar and has that day number.\<close>

lemma fromordinal_valid:
  assumes "1 \<le> n" "n \<le> 3652059"
  shows "valid_date (fromordinal n)" "toordinal (fromordinal n) = n"
proof -
  define y where "y = year_of_ord n ((n - 1) div 365 + 1)"
  define r where "r = n - days_before_year y"
  define m where "m = month_of_ord y r 12"
  have fo: "fromordinal n = \<lparr>year = y, month = m, day = r - days_before_month y m\<rparr>"
    by (simp add: fromordinal_def y_def r_def m_def Let_def)
  from assms(1) have "1 \<le> (n - 1) div 365 + 1" by simp
  from year_of_ord_bounds [OF assms(1) this days_before_year_estimate [OF assms(1)]]
  have y: "1 \<le> y" "days_before_year y < n" "n \<le> days_before_year (y + 1)"
    by (simp_all add: y_def)
  have "y \<le> 9999"
  proof (rule ccontr)
    assume "\<not> y \<le> 9999"
    then have "days_before_year 10000 \<le> days_before_year y"
      by (intro days_before_year_mono) simp
    with y(2) assms(2) show False by (simp add: days_before_year_def)
  qed
  from y have r: "1 \<le> r" "r \<le> days_before_month y 12 + days_in_month y 12"
    by (simp_all add: r_def days_in_year days_before_year_Suc split: if_splits)
  from month_of_ord_bounds [OF r(1) _ _ r(2)]
  have m: "1 \<le> m" "m \<le> 12" "days_before_month y m < r"
    "r \<le> days_before_month y m + days_in_month y m"
    by (simp_all add: m_def)
  from y \<open>y \<le> 9999\<close> m show "valid_date (fromordinal n)"
    by (simp add: fo valid_date_def)
  show "toordinal (fromordinal n) = n"
    by (simp add: fo toordinal_def ymd2ord_def r_def)
qed

lemma days_before_month_mono:
  assumes "k \<le> m"
  shows "1 \<le> k \<Longrightarrow> m \<le> 12 \<Longrightarrow> days_before_month y k \<le> days_before_month y m"
  using assms
proof (induction m rule: int_ge_induct)
  case base
  show ?case by simp
next
  case (step i)
  then have i: "1 \<le> i" "i \<le> 11" by simp_all
  from days_before_month_Suc [OF i, of y] days_in_month_pos [of i y] i step show ?case by simp
qed

lemma days_before_month_nonneg: "1 \<le> m \<Longrightarrow> m \<le> 12 \<Longrightarrow> 0 \<le> days_before_month y m"
  using days_before_month_mono [of 1 m y] by (simp add: days_before_month_1)

lemma month_end_le:
  assumes "1 \<le> m" "m < m'" "m' \<le> 12"
  shows "days_before_month y m + days_in_month y m \<le> days_before_month y m'"
proof -
  from assms have m: "1 \<le> m" "m \<le> 11" by simp_all
  from assms have "days_before_month y (m + 1) \<le> days_before_month y m'"
    by (intro days_before_month_mono) simp_all
  with days_before_month_Suc [OF m, of y] show ?thesis by simp
qed

lemma month_end_le_year:
  assumes "1 \<le> m" "m \<le> 12"
  shows "days_before_month y m + days_in_month y m \<le> (if is_leap y then 366 else 365)"
proof (cases "m = 12")
  case True
  then show ?thesis using days_in_year [of y] by simp
next
  case False
  with assms have "m < 12" by simp
  from month_end_le [OF assms(1) this, of y] days_in_month_pos [of 12 y] days_in_year [of y]
  show ?thesis by (simp split: if_splits)
qed

text \<open>The day number of a day of the calendar lies in its year and in its month.\<close>

lemma toordinal_in_year:
  assumes "valid_date d"
  shows "days_before_year (year d) < toordinal d"
    "toordinal d \<le> days_before_year (year d + 1)"
    "1 \<le> toordinal d" "toordinal d \<le> 3652059"
proof -
  from assms have v: "1 \<le> year d" "year d \<le> 9999" "1 \<le> month d" "month d \<le> 12"
    "1 \<le> day d" "day d \<le> days_in_month (year d) (month d)"
    by (simp_all add: valid_date_def)
  from days_before_month_nonneg [OF v(3,4), of "year d"] v(5)
  show lo: "days_before_year (year d) < toordinal d"
    by (simp add: toordinal_def ymd2ord_def)
  from month_end_le_year [OF v(3,4), of "year d"] v(6)
  show hi: "toordinal d \<le> days_before_year (year d + 1)"
    by (simp add: toordinal_def ymd2ord_def days_before_year_Suc split: if_splits)
  from v(1) have "days_before_year 1 \<le> days_before_year (year d)"
    by (rule days_before_year_mono)
  with lo show "1 \<le> toordinal d" by (simp add: days_before_year_def)
  from v(2) have "days_before_year (year d + 1) \<le> days_before_year 10000"
    by (intro days_before_year_mono) simp
  with hi show "toordinal d \<le> 3652059" by (simp add: days_before_year_def)
qed

lemma toordinal_inj:
  assumes "valid_date d" "valid_date d'" "toordinal d = toordinal d'"
  shows "year d = year d'" "month d = month d'" "day d = day d'"
proof -
  note a = toordinal_in_year [OF assms(1)] and b = toordinal_in_year [OF assms(2)]
  show y: "year d = year d'"
  proof (rule ccontr)
    assume "year d \<noteq> year d'"
    then consider "year d + 1 \<le> year d'" | "year d' + 1 \<le> year d" by linarith
    then show False
    proof cases
      case 1
      from days_before_year_mono [OF 1] a(2) b(1) assms(3) show False by simp
    next
      case 2
      from days_before_year_mono [OF 2] b(2) a(1) assms(3) show False by simp
    qed
  qed
  from assms(1) have v: "1 \<le> month d" "month d \<le> 12" "1 \<le> day d"
    "day d \<le> days_in_month (year d) (month d)"
    by (simp_all add: valid_date_def)
  from assms(2) y have v': "1 \<le> month d'" "month d' \<le> 12" "1 \<le> day d'"
    "day d' \<le> days_in_month (year d) (month d')"
    by (simp_all add: valid_date_def)
  from assms(3) y have eq: "days_before_month (year d) (month d) + day d
      = days_before_month (year d) (month d') + day d'"
    by (simp add: toordinal_def ymd2ord_def)
  show m: "month d = month d'"
  proof (rule ccontr)
    assume "month d \<noteq> month d'"
    then consider "month d < month d'" | "month d' < month d" by linarith
    then show False
    proof cases
      case 1
      from month_end_le [OF v(1) 1 v'(2), of "year d"] eq v(4) v'(3) show False by simp
    next
      case 2
      from month_end_le [OF v'(1) 2 v(2), of "year d"] eq v'(4) v(3) show False by simp
    qed
  qed
  with eq show "day d = day d'" by simp
qed

lemma fromordinal_toordinal:
  assumes "valid_date d"
  shows "year (fromordinal (toordinal d)) = year d" "month (fromordinal (toordinal d)) = month d"
    "day (fromordinal (toordinal d)) = day d"
proof -
  note r = toordinal_in_year(3,4) [OF assms]
  note f = fromordinal_valid [OF r]
  from toordinal_inj [OF f(1) assms f(2)]
  show "year (fromordinal (toordinal d)) = year d" "month (fromordinal (toordinal d)) = month d"
    "day (fromordinal (toordinal d)) = day d" .
qed

section \<open>Conversion to UTC\<close>











section \<open>The claims about timestamps\<close>

lemma format_dt_datetime:
  "format_dt e (PDateTime dt) =
     (case astimezone_utc e dt of Inl err \<Rightarrow> Inl err
      | Inr dt_utc \<Rightarrow> Inr (strftime_datetime dt_utc, False))"
  by simp

















end
